theory Spec2Isabelle
  imports
    Complex_Main
    "HOL-Library.Multiset"
    "HOL-Library.Sublist"
    "HOL-Library.Char_ord"
    "HOL-Library.List_Lexorder"
begin

section \<open>Data model (src/unnamed/part_008, src/types/database.ts)\<close>

text \<open>
  The enumerated column types of the \<^verbatim>\<open>todos\<close> table:
  \<^verbatim>\<open>TodoStatus = 'todo' | 'in_progress' | 'done' | 'cancelled'\<close> and
  \<^verbatim>\<open>TodoPriority = 'low' | 'medium' | 'high' | 'urgent'\<close>.
\<close>

datatype TodoStatus = StTodo | StInProgress | StDone | StCancelled

datatype TodoPriority = Low | Medium | High | Urgent

text \<open>
  Date-valued properties hold ISO date strings in the program; every one of them is only
  ever passed to \<^verbatim>\<open>new Date(...)\<close> and compared by its time value. The model
  stores the time value (milliseconds since the epoch) the string denotes, so it covers
  well-formed date strings only. \<open>None\<close> stands for the falsy values
  \<^verbatim>\<open>null\<close>, \<^verbatim>\<open>undefined\<close> and the empty string.
\<close>

type_synonym timestamp = int

record Tag =
  id_tag :: string
  name_tag :: string

text \<open>
  A todo object, with the properties that \<^verbatim>\<open>todo-list.tsx\<close> and
  \<^verbatim>\<open>todo-item.tsx\<close> read. The filter code reads the camel-case properties
  \<^verbatim>\<open>projectId\<close> and \<^verbatim>\<open>dueDate\<close>, the sort code indexes the object
  with the sort field names \<^verbatim>\<open>created_at\<close> and \<^verbatim>\<open>due_date\<close>; the record
  has one field for each property the code reads. The property \<^verbatim>\<open>id\<close> is
  called \<open>id_todo\<close> here.
\<close>

record Todo =
  id_todo :: string
  title :: string
  description :: "string option"
  status :: TodoStatus
  priority :: TodoPriority
  projectId :: "string option"
  tags :: "Tag list option"
  dueDate :: "timestamp option"
  due_date :: "timestamp option"
  created_at :: "timestamp option"
  updated_at :: "timestamp option"
  completedAt :: "timestamp option"

text \<open>
  \<^verbatim>\<open>interface TodoFilters\<close>: every member is optional; \<open>None\<close> is
  \<^verbatim>\<open>undefined\<close>. The two date bounds are \<^verbatim>\<open>Date\<close> objects.
\<close>

record TodoFilters =
  status_f :: "TodoStatus list option"
  priority_f :: "TodoPriority list option"
  projectId_f :: "string option"
  tagIds :: "string list option"
  dueDateFrom :: "timestamp option"
  dueDateTo :: "timestamp option"

datatype SortField = F_created_at | F_title | F_due_date | F_priority | F_status

datatype SortOrder = Asc | Desc

record TodoSort =
  field_s :: SortField
  order_s :: SortOrder

section \<open>String primitives\<close>

text \<open>
  Strings are lists of 8-bit characters, so the string functions are modelled on ASCII:
  \<^verbatim>\<open>toLowerCase\<close> maps \<open>A\<close>..\<open>Z\<close> to \<open>a\<close>..\<open>z\<close>, \<^verbatim>\<open>trim\<close> strips the
  ASCII white space and line terminators from both ends, and \<^verbatim>\<open>includes\<close> is
  the substring test.
\<close>

definition toLowerCase_char :: "char \<Rightarrow> char" where
  "toLowerCase_char c =
     (if CHR ''A'' \<le> c \<and> c \<le> CHR ''Z'' then char_of (of_char c + (32::nat)) else c)"

definition toLowerCase :: "string \<Rightarrow> string" where
  "toLowerCase s = map toLowerCase_char s"

definition isWhiteSpace :: "char \<Rightarrow> bool" where
  "isWhiteSpace c \<longleftrightarrow> c \<in> set [CHR 0x20, CHR 0x09, CHR 0x0A, CHR 0x0B, CHR 0x0C, CHR 0x0D]"

definition trim :: "string \<Rightarrow> string" where
  "trim s = rev (dropWhile isWhiteSpace (rev (dropWhile isWhiteSpace s)))"

fun includes_str :: "string \<Rightarrow> string \<Rightarrow> bool" where
  "includes_str [] needle = (needle = [])"
| "includes_str (c # cs) needle = (prefix needle (c # cs) \<or> includes_str cs needle)"

section \<open>Filtering (todo-list.tsx, lines 72--116)\<close>

text \<open>
  Each block of the source is a guard and a predicate handed to
  \<^verbatim>\<open>Array.prototype.filter\<close>. The guards are JavaScript truthiness tests: an
  array is tested with \<^verbatim>\<open>x && x.length > 0\<close>, a string is truthy when it is not
  empty, a \<^verbatim>\<open>Date\<close> object is always truthy.
\<close>

definition searchActive :: "string \<Rightarrow> bool" where
  "searchActive searchTerm \<longleftrightarrow> trim searchTerm \<noteq> []"

definition matchesSearch :: "string \<Rightarrow> Todo \<Rightarrow> bool" where
  "matchesSearch searchTerm t =
     (let searchLower = toLowerCase searchTerm in
      includes_str (toLowerCase (title t)) searchLower \<or>
      (case description t of
         None \<Rightarrow> False
       | Some d \<Rightarrow> includes_str (toLowerCase d) searchLower))"

definition statusActive :: "TodoFilters \<Rightarrow> bool" where
  "statusActive filters \<longleftrightarrow>
     (case status_f filters of None \<Rightarrow> False | Some ss \<Rightarrow> length ss > 0)"

definition matchesStatus :: "TodoFilters \<Rightarrow> Todo \<Rightarrow> bool" where
  "matchesStatus filters t \<longleftrightarrow>
     (case status_f filters of None \<Rightarrow> False | Some ss \<Rightarrow> status t \<in> set ss)"

definition priorityActive :: "TodoFilters \<Rightarrow> bool" where
  "priorityActive filters \<longleftrightarrow>
     (case priority_f filters of None \<Rightarrow> False | Some ps \<Rightarrow> length ps > 0)"

definition matchesPriority :: "TodoFilters \<Rightarrow> Todo \<Rightarrow> bool" where
  "matchesPriority filters t \<longleftrightarrow>
     (case priority_f filters of None \<Rightarrow> False | Some ps \<Rightarrow> priority t \<in> set ps)"

definition projectActive :: "TodoFilters \<Rightarrow> bool" where
  "projectActive filters \<longleftrightarrow>
     (case projectId_f filters of None \<Rightarrow> False | Some p \<Rightarrow> p \<noteq> [])"

definition matchesProject :: "TodoFilters \<Rightarrow> Todo \<Rightarrow> bool" where
  "matchesProject filters t \<longleftrightarrow> projectId t = projectId_f filters"

definition tagsActive :: "TodoFilters \<Rightarrow> bool" where
  "tagsActive filters \<longleftrightarrow>
     (case tagIds filters of None \<Rightarrow> False | Some ids \<Rightarrow> length ids > 0)"

definition matchesTags :: "TodoFilters \<Rightarrow> Todo \<Rightarrow> bool" where
  "matchesTags filters t \<longleftrightarrow>
     (case tags t of
        None \<Rightarrow> False
      | Some tgs \<Rightarrow>
          list_ex (\<lambda>tag. case tagIds filters of
                            None \<Rightarrow> False
                          | Some ids \<Rightarrow> id_tag tag \<in> set ids) tgs)"

definition dueDateActive :: "TodoFilters \<Rightarrow> bool" where
  "dueDateActive filters \<longleftrightarrow> dueDateFrom filters \<noteq> None \<or> dueDateTo filters \<noteq> None"

definition matchesDueDate :: "TodoFilters \<Rightarrow> Todo \<Rightarrow> bool" where
  "matchesDueDate filters t =
     (case dueDate t of
        None \<Rightarrow> False
      | Some d \<Rightarrow>
          if (case dueDateFrom filters of None \<Rightarrow> False | Some from \<Rightarrow> d < from) then False
          else if (case dueDateTo filters of None \<Rightarrow> False | Some to \<Rightarrow> d > to) then False
          else True)"

text \<open>
  \<^verbatim>\<open>let filtered = [...todos]\<close> followed by the six guarded reassignments
  \<^verbatim>\<open>filtered = filtered.filter(...)\<close>, in the order of the source.
\<close>

definition applyFilters :: "Todo list \<Rightarrow> string \<Rightarrow> TodoFilters \<Rightarrow> Todo list" where
  "applyFilters todos searchTerm filters =
     (let filtered = todos;
          filtered = (if searchActive searchTerm
                      then filter (matchesSearch searchTerm) filtered else filtered);
          filtered = (if statusActive filters
                      then filter (matchesStatus filters) filtered else filtered);
          filtered = (if priorityActive filters
                      then filter (matchesPriority filters) filtered else filtered);
          filtered = (if projectActive filters
                      then filter (matchesProject filters) filtered else filtered);
          filtered = (if tagsActive filters
                      then filter (matchesTags filters) filtered else filtered);
          filtered = (if dueDateActive filters
                      then filter (matchesDueDate filters) filtered else filtered)
      in filtered)"

section \<open>Sorting (todo-list.tsx, lines 119--152)\<close>

text \<open>
  The comparator computes \<^verbatim>\<open>aValue\<close> and \<^verbatim>\<open>bValue\<close> from the sort field and
  compares them with \<^verbatim>\<open><\<close> and \<^verbatim>\<open>>\<close>. For a date field the value is the
  time value, or 0 for a falsy property; for \<^verbatim>\<open>title\<close> it is the lower-cased
  string; for \<^verbatim>\<open>priority\<close> and \<^verbatim>\<open>status\<close> it is the number the lookup
  table gives (the names are lower-case already, and the \<^verbatim>\<open>|| 0\<close> default is
  never taken for a value of the enumerated type).
\<close>

datatype sortval = Num int | Str string

definition priorityOrder :: "TodoPriority \<Rightarrow> int" where
  "priorityOrder p = (case p of Urgent \<Rightarrow> 4 | High \<Rightarrow> 3 | Medium \<Rightarrow> 2 | Low \<Rightarrow> 1)"

definition statusOrder :: "TodoStatus \<Rightarrow> int" where
  "statusOrder s = (case s of StTodo \<Rightarrow> 1 | StInProgress \<Rightarrow> 2 | StDone \<Rightarrow> 3 | StCancelled \<Rightarrow> 4)"

definition sortValue :: "SortField \<Rightarrow> Todo \<Rightarrow> sortval" where
  "sortValue f t =
     (case f of
        F_created_at \<Rightarrow> Num (case created_at t of None \<Rightarrow> 0 | Some d \<Rightarrow> d)
      | F_due_date \<Rightarrow> Num (case due_date t of None \<Rightarrow> 0 | Some d \<Rightarrow> d)
      | F_title \<Rightarrow> Str (toLowerCase (title t))
      | F_priority \<Rightarrow> Num (priorityOrder (priority t))
      | F_status \<Rightarrow> Num (statusOrder (status t)))"

text \<open>
  JavaScript's \<^verbatim>\<open><\<close> on two numbers and on two strings (code-unit order). The two
  values of one comparison always have the same kind; a string is never compared with a
  number here, and the model answers \<open>False\<close> for such a pair.
\<close>

fun js_less :: "sortval \<Rightarrow> sortval \<Rightarrow> bool" where
  "js_less (Num a) (Num b) = (a < b)"
| "js_less (Str a) (Str b) = (a < b)"
| "js_less _ _ = False"

definition compareTodos :: "TodoSort \<Rightarrow> Todo \<Rightarrow> Todo \<Rightarrow> int" where
  "compareTodos srt a b =
     (let aValue = sortValue (field_s srt) a;
          bValue = sortValue (field_s srt) b
      in if js_less aValue bValue then (if order_s srt = Asc then - 1 else 1)
         else if js_less bValue aValue then (if order_s srt = Asc then 1 else - 1)
         else 0)"

text \<open>
  \<^verbatim>\<open>Array.prototype.sort\<close> with a comparator is a stable sort (ECMAScript 2019):
  elements for which the comparator answers 0 keep their relative order. Insertion from
  the right, placing an element before the first one it does not compare greater than,
  computes that result.
\<close>

fun insert_by :: "('a \<Rightarrow> 'a \<Rightarrow> int) \<Rightarrow> 'a \<Rightarrow> 'a list \<Rightarrow> 'a list" where
  "insert_by cmp x [] = [x]"
| "insert_by cmp x (y # ys) =
     (if cmp x y \<le> 0 then x # y # ys else y # insert_by cmp x ys)"

definition js_sort :: "('a \<Rightarrow> 'a \<Rightarrow> int) \<Rightarrow> 'a list \<Rightarrow> 'a list" where
  "js_sort cmp xs = foldr (insert_by cmp) xs []"

text \<open>
  The value of \<^verbatim>\<open>applyFiltersAndSort\<close>: the array handed to
  \<^verbatim>\<open>setFilteredTodos\<close>.
\<close>

definition applyFiltersAndSort ::
  "Todo list \<Rightarrow> string \<Rightarrow> TodoFilters \<Rightarrow> TodoSort \<Rightarrow> Todo list" where
  "applyFiltersAndSort todos searchTerm filters srt =
     js_sort (compareTodos srt) (applyFilters todos searchTerm filters)"

section \<open>Pagination (todo-list.tsx, lines 267--270)\<close>

text \<open>
  \<^verbatim>\<open>Array.prototype.slice(start, end)\<close>: a negative index counts from the end of
  the array, both indices are clamped to the array, and the result is empty when the end
  is not after the start.
\<close>

definition slice :: "'a list \<Rightarrow> int \<Rightarrow> int \<Rightarrow> 'a list" where
  "slice xs start stop =
     (let len = int (length xs);
          k = (if start < 0 then max (len + start) 0 else min start len);
          final = (if stop < 0 then max (len + stop) 0 else min stop len)
      in take (nat (final - k)) (drop (nat k) xs))"

text \<open>
  \<^verbatim>\<open>pageSize\<close> and \<^verbatim>\<open>currentPage\<close> are integers in the model.
  \<^verbatim>\<open>Math.ceil(filteredTodos.length / pageSize)\<close> is the ceiling of the exact
  quotient; the model follows the program for a page size that is not 0 (the program
  divides by 0 to \<^verbatim>\<open>Infinity\<close> or \<^verbatim>\<open>NaN\<close>, HOL to 0).
\<close>

definition totalPages :: "'a list \<Rightarrow> int \<Rightarrow> int" where
  "totalPages filteredTodos pageSize = \<lceil>real (length filteredTodos) / real_of_int pageSize\<rceil>"

definition startIndex :: "int \<Rightarrow> int \<Rightarrow> int" where
  "startIndex currentPage pageSize = (currentPage - 1) * pageSize"

definition endIndex :: "int \<Rightarrow> int \<Rightarrow> int" where
  "endIndex currentPage pageSize = startIndex currentPage pageSize + pageSize"

definition paginatedTodos :: "'a list \<Rightarrow> int \<Rightarrow> int \<Rightarrow> 'a list" where
  "paginatedTodos filteredTodos pageSize currentPage =
     slice filteredTodos (startIndex currentPage pageSize) (endIndex currentPage pageSize)"

section \<open>The component state and its change handlers (todo-list.tsx, lines 195--226)\<close>

text \<open>
  The \<^verbatim>\<open>useState\<close> cells the handlers write. A handler is a function from the
  state before to the state after.
\<close>

record TodoListState =
  todos :: "Todo list"
  filteredTodos :: "Todo list"
  currentPage :: int
  error :: "string option"
  isCreateDialogOpen :: bool

text \<open>\<^verbatim>\<open>setTodos(prev => [newTodo, ...prev]); setIsCreateDialogOpen(false)\<close>\<close>

definition handleTodoCreate :: "Todo \<Rightarrow> TodoListState \<Rightarrow> TodoListState" where
  "handleTodoCreate newTodo s = s\<lparr>todos := newTodo # todos s, isCreateDialogOpen := False\<rparr>"

text \<open>
  \<^verbatim>\<open>setTodos(prev => prev.map(todo => todo.id === updatedTodo.id ? updatedTodo : todo))\<close>
\<close>

definition handleTodoUpdate :: "Todo \<Rightarrow> TodoListState \<Rightarrow> TodoListState" where
  "handleTodoUpdate updatedTodo s =
     s\<lparr>todos := map (\<lambda>t. if id_todo t = id_todo updatedTodo then updatedTodo else t) (todos s)\<rparr>"

text \<open>
  What \<^verbatim>\<open>handleTodoDelete\<close> learns from the remote store: the awaited call
  resolves to an object whose \<^verbatim>\<open>error\<close> member is null or an error value, or
  the call itself throws. A thrown or returned value is an \<^verbatim>\<open>Error\<close> instance
  with a message, or something else.
\<close>

datatype js_error = ErrorInstance string | OtherValue

datatype remote_result = Resolved "js_error option" | Thrown js_error

text \<open>
  The body of the \<^verbatim>\<open>try\<close> block: it throws (\<open>Inl\<close>) before
  \<^verbatim>\<open>setTodos\<close> is reached when the remote store reports an error.
\<close>

definition delete_try :: "remote_result \<Rightarrow> string \<Rightarrow> TodoListState \<Rightarrow> js_error + TodoListState" where
  "delete_try r todoId s =
     (case r of
        Thrown e \<Rightarrow> Inl e
      | Resolved (Some e) \<Rightarrow> Inl e
      | Resolved None \<Rightarrow> Inr (s\<lparr>todos := filter (\<lambda>t. id_todo t \<noteq> todoId) (todos s)\<rparr>))"

definition handleTodoDelete :: "remote_result \<Rightarrow> string \<Rightarrow> TodoListState \<Rightarrow> TodoListState" where
  "handleTodoDelete r todoId s =
     (case delete_try r todoId s of
        Inr s' \<Rightarrow> s'
      | Inl err \<Rightarrow>
          s\<lparr>error := Some (case err of
                              ErrorInstance message \<Rightarrow> message
                            | OtherValue \<Rightarrow> ''Failed to delete todo'')\<rparr>)"

section \<open>Toggling the completion status (todo-item.tsx, \<^verbatim>\<open>handleToggleStatus\<close>)\<close>

text \<open>
  The update that \<^verbatim>\<open>handleToggleStatus\<close> sends for the todo it displays:
  the row id and the two columns it sets. Nothing is sent while an update is in flight
  (\<^verbatim>\<open>if (isUpdating) return\<close>). \<open>now\<close> is the time read by
  \<^verbatim>\<open>new Date()\<close>.
\<close>

record StatusUpdate =
  row_id :: string
  new_status :: TodoStatus
  new_completedAt :: "timestamp option"

definition handleToggleStatus :: "bool \<Rightarrow> timestamp \<Rightarrow> Todo \<Rightarrow> StatusUpdate option" where
  "handleToggleStatus isUpdating now t =
     (if isUpdating then None
      else
        let newStatus = (if status t = StDone then StTodo else StDone)
        in Some \<lparr>row_id = id_todo t,
                  new_status = newStatus,
                  new_completedAt = (if newStatus = StDone then Some now else None)\<rparr>)"

section \<open>Arrays and objects in a store\<close>

text \<open>
  \<^verbatim>\<open>applyFiltersAndSort\<close> once more, on a store, to see which arrays it
  writes: \<^verbatim>\<open>sort\<close> sorts the array it is called on in place, while the spread
  \<^verbatim>\<open>[...todos]\<close> and \<^verbatim>\<open>filter\<close> allocate a new array. Arrays hold
  references to todo objects; an address is an index into the store.
\<close>

type_synonym ref = nat

record heap =
  objects :: "Todo list"
  arrays :: "ref list list"

definition deref :: "heap \<Rightarrow> ref \<Rightarrow> Todo" where
  "deref h r = objects h ! r"

definition new_array :: "ref list \<Rightarrow> heap \<Rightarrow> nat \<times> heap" where
  "new_array rs h = (length (arrays h), h\<lparr>arrays := arrays h @ [rs]\<rparr>)"

definition filter_array :: "(Todo \<Rightarrow> bool) \<Rightarrow> nat \<times> heap \<Rightarrow> nat \<times> heap" where
  "filter_array P ah =
     (case ah of (a, h) \<Rightarrow> new_array (filter (\<lambda>r. P (deref h r)) (arrays h ! a)) h)"

definition sort_array :: "(Todo \<Rightarrow> Todo \<Rightarrow> int) \<Rightarrow> nat \<times> heap \<Rightarrow> nat \<times> heap" where
  "sort_array cmp ah =
     (case ah of (a, h) \<Rightarrow>
        (a, h\<lparr>arrays := (arrays h)[a := js_sort (\<lambda>r r'. cmp (deref h r) (deref h r'))
                                                (arrays h ! a)]\<rparr>))"

text \<open>
  The pair is the variable \<^verbatim>\<open>filtered\<close> (an address) and the store: first the
  copy and the guarded filters, then the sort of the array \<^verbatim>\<open>filtered\<close> names.
  The result is the address passed to \<^verbatim>\<open>setFilteredTodos\<close>, with the store
  after the call.
\<close>

definition applyFilters_heap :: "nat \<Rightarrow> string \<Rightarrow> TodoFilters \<Rightarrow> heap \<Rightarrow> nat \<times> heap" where
  "applyFilters_heap todos_a searchTerm filters h =
     (let filtered = new_array (arrays h ! todos_a) h;
          filtered = (if searchActive searchTerm
                      then filter_array (matchesSearch searchTerm) filtered else filtered);
          filtered = (if statusActive filters
                      then filter_array (matchesStatus filters) filtered else filtered);
          filtered = (if priorityActive filters
                      then filter_array (matchesPriority filters) filtered else filtered);
          filtered = (if projectActive filters
                      then filter_array (matchesProject filters) filtered else filtered);
          filtered = (if tagsActive filters
                      then filter_array (matchesTags filters) filtered else filtered);
          filtered = (if dueDateActive filters
                      then filter_array (matchesDueDate filters) filtered else filtered)
      in filtered)"

definition applyFiltersAndSort_heap ::
  "nat \<Rightarrow> string \<Rightarrow> TodoFilters \<Rightarrow> TodoSort \<Rightarrow> heap \<Rightarrow> nat \<times> heap" where
  "applyFiltersAndSort_heap todos_a searchTerm filters srt h =
     sort_array (compareTodos srt) (applyFilters_heap todos_a searchTerm filters h)"

text \<open>The todo objects an array of the store holds, in order.\<close>

definition contents :: "heap \<Rightarrow> nat \<Rightarrow> Todo list" where
  "contents h a = map (deref h) (arrays h ! a)"

text \<open>The todo objects held by the array that a pair of an address and a store names.\<close>

definition view :: "nat \<times> heap \<Rightarrow> Todo list" where
  "view ah = contents (snd ah) (fst ah)"

text \<open>
  A pair of an address and a store extends a store \<open>h\<close> when its objects are those of
  \<open>h\<close>, its arrays begin with the arrays of \<open>h\<close>, unchanged, and the address is one
  of the arrays added.
\<close>

definition extends_heap :: "heap \<Rightarrow> nat \<times> heap \<Rightarrow> bool" where
  "extends_heap h ah \<longleftrightarrow>
     (case ah of (a, h') \<Rightarrow>
        objects h' = objects h \<and>
        take (length (arrays h)) (arrays h') = arrays h \<and>
        length (arrays h) \<le> a \<and> a < length (arrays h'))"

section \<open>The properties, in the words of the specification\<close>

text \<open>
  A todo satisfies a filter specification and a search term when it satisfies every
  predicate that is present: the search term (present when it has a character that is not
  white space) is a substring of the title or of the description, compared in lower case;
  the status and the priority are members of the given sets; the project id is the given
  one; the todo has a tag whose id is among the given ones; the due date is there and
  within the given bounds.
\<close>

definition spec_satisfies :: "string \<Rightarrow> TodoFilters \<Rightarrow> Todo \<Rightarrow> bool" where
  "spec_satisfies searchTerm filters t \<longleftrightarrow>
     ((\<exists>c\<in>set searchTerm. \<not> isWhiteSpace c) \<longrightarrow>
        sublist (toLowerCase searchTerm) (toLowerCase (title t)) \<or>
        (\<exists>d. description t = Some d \<and> sublist (toLowerCase searchTerm) (toLowerCase d))) \<and>
     (\<forall>ss. status_f filters = Some ss \<and> ss \<noteq> [] \<longrightarrow> status t \<in> set ss) \<and>
     (\<forall>ps. priority_f filters = Some ps \<and> ps \<noteq> [] \<longrightarrow> priority t \<in> set ps) \<and>
     (\<forall>p. projectId_f filters = Some p \<and> p \<noteq> [] \<longrightarrow> projectId t = Some p) \<and>
     (\<forall>ids. tagIds filters = Some ids \<and> ids \<noteq> [] \<longrightarrow>
        (\<exists>tgs. tags t = Some tgs \<and> id_tag ` set tgs \<inter> set ids \<noteq> {})) \<and>
     (dueDateFrom filters \<noteq> None \<or> dueDateTo filters \<noteq> None \<longrightarrow>
        (\<exists>d. dueDate t = Some d \<and>
             (\<forall>lo. dueDateFrom filters = Some lo \<longrightarrow> lo \<le> d) \<and>
             (\<forall>hi. dueDateTo filters = Some hi \<longrightarrow> d \<le> hi)))"

text \<open>The empty filter specification \<^verbatim>\<open>{}\<close>, the initial value of the state.\<close>

definition noFilters :: TodoFilters where
  "noFilters = \<lparr>status_f = None, priority_f = None, projectId_f = None, tagIds = None,
                 dueDateFrom = None, dueDateTo = None\<rparr>"

text \<open>The chain of guarded filters keeps the todos that pass every active filter.\<close>

definition passesFilters :: "string \<Rightarrow> TodoFilters \<Rightarrow> Todo \<Rightarrow> bool" where
  "passesFilters searchTerm filters t \<longleftrightarrow>
     (searchActive searchTerm \<longrightarrow> matchesSearch searchTerm t) \<and>
     (statusActive filters \<longrightarrow> matchesStatus filters t) \<and>
     (priorityActive filters \<longrightarrow> matchesPriority filters t) \<and>
     (projectActive filters \<longrightarrow> matchesProject filters t) \<and>
     (tagsActive filters \<longrightarrow> matchesTags filters t) \<and>
     (dueDateActive filters \<longrightarrow> matchesDueDate filters t)"

section \<open>Sample data\<close>

text \<open>Three todo objects and an initial component state, used to run the definitions.\<close>

definition todo_milk :: Todo where
  "todo_milk = \<lparr>id_todo = ''a'', title = ''Buy Milk'', description = None,
     status = StTodo, priority = High, projectId = Some ''p1'',
     tags = Some [\<lparr>id_tag = ''t1'', name_tag = ''home''\<rparr>],
     dueDate = Some 100, due_date = Some 100, created_at = Some 10,
     updated_at = Some 10, completedAt = None\<rparr>"

definition todo_report :: Todo where
  "todo_report = \<lparr>id_todo = ''b'', title = ''report'', description = Some ''quarterly'',
     status = StDone, priority = Low, projectId = Some ''p2'',
     tags = None,
     dueDate = None, due_date = None, created_at = Some 20,
     updated_at = Some 20, completedAt = Some 30\<rparr>"

definition todo_call :: Todo where
  "todo_call = \<lparr>id_todo = ''c'', title = ''call the bank'', description = None,
     status = StInProgress, priority = High, projectId = Some ''p1'',
     tags = Some [],
     dueDate = Some 40, due_date = Some 40, created_at = Some 30,
     updated_at = Some 30, completedAt = None\<rparr>"

definition state0 :: TodoListState where
  "state0 = \<lparr>todos = [todo_milk, todo_report], filteredTodos = [todo_milk, todo_report],
     currentPage = 1, error = None, isCreateDialogOpen = True\<rparr>"

definition filters1 :: TodoFilters where
  "filters1 = noFilters\<lparr>status_f := Some [StTodo, StInProgress], priority_f := Some []\<rparr>"

definition filters2 :: TodoFilters where
  "filters2 = noFilters\<lparr>dueDateTo := Some 1000\<rparr>"

definition byPriorityAsc :: TodoSort where
  "byPriorityAsc = \<lparr>field_s = F_priority, order_s = Asc\<rparr>"

definition milk_stale :: Todo where
  "milk_stale = todo_milk\<lparr>title := ''Buy bread'', updated_at := Some 5\<rparr>"

definition heap0 :: heap where
  "heap0 = \<lparr>objects = [todo_milk, todo_report, todo_call], arrays = [[0, 1, 2]]\<rparr>"

section \<open>Strings and filters: basic facts\<close>

lemma includes_str_sublist: "includes_str h n \<longleftrightarrow> sublist n h"
  by (induction h) (auto simp: sublist_Cons_right)

lemma trim_nonempty: "trim s \<noteq> [] \<longleftrightarrow> (\<exists>c\<in>set s. \<not> isWhiteSpace c)"
proof -
  have "(\<exists>c\<in>set (dropWhile isWhiteSpace s). \<not> isWhiteSpace c) \<longleftrightarrow>
        (\<exists>c\<in>set s. \<not> isWhiteSpace c)"
    by (metis dropWhile_eq_Nil_conv hd_dropWhile list.set_sel(1) set_dropWhileD)
  then show ?thesis
    by (simp add: trim_def)
qed

lemma guarded_filter: "(if c then filter P xs else xs) = filter (\<lambda>t. c \<longrightarrow> P t) xs"
  by simp

lemma applyFilters_filter:
  "applyFilters ts searchTerm filters = filter (passesFilters searchTerm filters) ts"
  unfolding applyFilters_def Let_def guarded_filter filter_filter conj_assoc
  by (rule filter_cong) (simp_all only: passesFilters_def)

lemma passesFilters_spec:
  "passesFilters searchTerm filters t \<longleftrightarrow> spec_satisfies searchTerm filters t"
proof -
  have 1: "(searchActive searchTerm \<longrightarrow> matchesSearch searchTerm t) \<longleftrightarrow>
     ((\<exists>c\<in>set searchTerm. \<not> isWhiteSpace c) \<longrightarrow>
        sublist (toLowerCase searchTerm) (toLowerCase (title t)) \<or>
        (\<exists>d. description t = Some d \<and> sublist (toLowerCase searchTerm) (toLowerCase d)))"
    by (auto simp: searchActive_def matchesSearch_def Let_def trim_nonempty
        includes_str_sublist split: option.splits)
  have 2: "(statusActive filters \<longrightarrow> matchesStatus filters t) \<longleftrightarrow>
     (\<forall>ss. status_f filters = Some ss \<and> ss \<noteq> [] \<longrightarrow> status t \<in> set ss)"
    by (auto simp: statusActive_def matchesStatus_def split: option.splits)
  have 3: "(priorityActive filters \<longrightarrow> matchesPriority filters t) \<longleftrightarrow>
     (\<forall>ps. priority_f filters = Some ps \<and> ps \<noteq> [] \<longrightarrow> priority t \<in> set ps)"
    by (auto simp: priorityActive_def matchesPriority_def split: option.splits)
  have 4: "(projectActive filters \<longrightarrow> matchesProject filters t) \<longleftrightarrow>
     (\<forall>p. projectId_f filters = Some p \<and> p \<noteq> [] \<longrightarrow> projectId t = Some p)"
    by (auto simp: projectActive_def matchesProject_def split: option.splits)
  have 5: "(tagsActive filters \<longrightarrow> matchesTags filters t) \<longleftrightarrow>
     (\<forall>ids. tagIds filters = Some ids \<and> ids \<noteq> [] \<longrightarrow>
        (\<exists>tgs. tags t = Some tgs \<and> id_tag ` set tgs \<inter> set ids \<noteq> {}))"
    by (auto simp: tagsActive_def matchesTags_def list_ex_iff split: option.splits)
  have 6: "(dueDateActive filters \<longrightarrow> matchesDueDate filters t) \<longleftrightarrow>
     (dueDateFrom filters \<noteq> None \<or> dueDateTo filters \<noteq> None \<longrightarrow>
        (\<exists>d. dueDate t = Some d \<and>
             (\<forall>lo. dueDateFrom filters = Some lo \<longrightarrow> lo \<le> d) \<and>
             (\<forall>hi. dueDateTo filters = Some hi \<longrightarrow> d \<le> hi)))"
    by (auto simp: dueDateActive_def matchesDueDate_def split: option.splits)
  show ?thesis
    unfolding passesFilters_def spec_satisfies_def 1 2 3 4 5 6 by (rule refl)
qed

section \<open>The sort: permutation, order, stability\<close>

lemma mset_insert_by: "mset (insert_by cmp x ys) = add_mset x (mset ys)"
  by (induction ys) auto

lemma mset_js_sort: "mset (js_sort cmp xs) = mset xs"
  by (induction xs) (auto simp: js_sort_def mset_insert_by)

lemma set_js_sort: "set (js_sort cmp xs) = set xs"
  using arg_cong[OF mset_js_sort[of cmp xs], of set_mset] by simp

lemma js_sort_Cons: "js_sort cmp (x # xs) = insert_by cmp x (js_sort cmp xs)"
  by (simp add: js_sort_def)

lemma js_sort_Nil: "js_sort cmp [] = []"
  by (simp add: js_sort_def)

lemma set_insert_by: "set (insert_by cmp x ys) = insert x (set ys)"
  by (induction ys) auto

lemma sorted_insert_by:
  assumes total: "\<And>a b. cmp a b \<le> 0 \<or> cmp b a \<le> 0"
    and trans: "\<And>a b c. cmp a b \<le> 0 \<Longrightarrow> cmp b c \<le> 0 \<Longrightarrow> cmp a c \<le> 0"
  shows "sorted_wrt (\<lambda>a b. cmp a b \<le> 0) ys \<Longrightarrow>
         sorted_wrt (\<lambda>a b. cmp a b \<le> 0) (insert_by cmp x ys)"
proof (induction ys)
  case Nil
  then show ?case by simp
next
  case (Cons y ys)
  show ?case
  proof (cases "cmp x y \<le> 0")
    case True
    then have "\<forall>z\<in>set ys. cmp x z \<le> 0"
      using Cons.prems trans by auto
    with True Cons.prems show ?thesis by simp
  next
    case False
    then have "cmp y x \<le> 0" using total[of x y] by simp
    with False Cons show ?thesis by (auto simp: set_insert_by)
  qed
qed

lemma sorted_js_sort:
  assumes total: "\<And>a b. cmp a b \<le> 0 \<or> cmp b a \<le> 0"
    and trans: "\<And>a b c. cmp a b \<le> 0 \<Longrightarrow> cmp b c \<le> 0 \<Longrightarrow> cmp a c \<le> 0"
  shows "sorted_wrt (\<lambda>a b. cmp a b \<le> 0) (js_sort cmp xs)"
proof (induction xs)
  case Nil
  show ?case by (simp add: js_sort_Nil)
next
  case (Cons x xs)
  show ?case
    unfolding js_sort_Cons
  proof (rule sorted_insert_by)
    show "cmp a b \<le> 0 \<or> cmp b a \<le> 0" for a b by (rule total)
    show "cmp a b \<le> 0 \<Longrightarrow> cmp b c \<le> 0 \<Longrightarrow> cmp a c \<le> 0" for a b c by (rule trans)
    show "sorted_wrt (\<lambda>a b. cmp a b \<le> 0) (js_sort cmp xs)" by (rule Cons.IH)
  qed
qed

text \<open>Stability: a class of elements that do not compare greater than one another
  keeps its order.\<close>

lemma filter_insert_by:
  assumes "\<And>y. y \<in> set ys \<Longrightarrow> P x \<Longrightarrow> P y \<Longrightarrow> cmp x y \<le> 0"
  shows "filter P (insert_by cmp x ys) = filter P (x # ys)"
  using assms by (induction ys) auto

lemma js_sort_stable:
  assumes "\<And>x y. P x \<Longrightarrow> P y \<Longrightarrow> cmp x y \<le> 0"
  shows "filter P (js_sort cmp xs) = filter P xs"
proof (induction xs)
  case Nil
  show ?case by (simp add: js_sort_Nil)
next
  case (Cons x xs)
  have "filter P (insert_by cmp x (js_sort cmp xs)) = filter P (x # js_sort cmp xs)"
    by (rule filter_insert_by) (rule assms)
  with Cons show ?case by (simp add: js_sort_Cons)
qed

text \<open>Two sorted lists with the same elements are equal when no two distinct elements
  are related both ways.\<close>

lemma sorted_wrt_mset_unique:
  assumes "\<And>x y. x \<in> set xs \<Longrightarrow> y \<in> set xs \<Longrightarrow> R x y \<Longrightarrow> R y x \<Longrightarrow> x = y"
    and "sorted_wrt R xs" and "sorted_wrt R ys" and "mset xs = mset ys"
  shows "xs = ys"
  using assms
proof (induction xs arbitrary: ys)
  case Nil
  then show ?case by simp
next
  case (Cons x xs)
  from Cons.prems(4) obtain y ys' where ys: "ys = y # ys'"
    by (cases ys) auto
  have sets: "set (x # xs) = set (y # ys')"
    using Cons.prems(4) ys by (metis mset_eq_setD)
  have "x = y"
  proof (rule ccontr)
    assume ne: "x \<noteq> y"
    then have "x \<in> set ys'" and "y \<in> set xs" using sets by auto
    then have "R y x" and "R x y" using Cons.prems(2,3) ys by auto
    moreover have "y \<in> set (x # xs)" using sets by simp
    ultimately show False using Cons.prems(1)[of x y] ne by simp
  qed
  moreover have "xs = ys'"
  proof (rule Cons.IH)
    show "mset xs = mset ys'" using Cons.prems(4) ys \<open>x = y\<close> by simp
    show "sorted_wrt R xs" using Cons.prems(2) by simp
    show "sorted_wrt R ys'" using Cons.prems(3) ys by simp
    show "\<And>a b. a \<in> set xs \<Longrightarrow> b \<in> set xs \<Longrightarrow> R a b \<Longrightarrow> R b a \<Longrightarrow> a = b"
      using Cons.prems(1) by simp
  qed
  ultimately show ?case using ys by simp
qed

lemma compareTodos_total: "compareTodos srt a b \<le> 0 \<or> compareTodos srt b a \<le> 0"
  by (cases "field_s srt") (auto simp: compareTodos_def sortValue_def Let_def)

lemma compareTodos_trans:
  "compareTodos srt a b \<le> 0 \<Longrightarrow> compareTodos srt b c \<le> 0 \<Longrightarrow> compareTodos srt a c \<le> 0"
  by (cases "field_s srt") (auto simp: compareTodos_def sortValue_def Let_def split: if_splits)

lemma compareTodos_zero_iff:
  "compareTodos srt a b = 0 \<longleftrightarrow> sortValue (field_s srt) a = sortValue (field_s srt) b"
  by (cases "field_s srt") (auto simp: compareTodos_def sortValue_def Let_def split: if_splits)

lemma compareTodos_antisym:
  "compareTodos srt a b \<le> 0 \<Longrightarrow> compareTodos srt b a \<le> 0 \<Longrightarrow> compareTodos srt a b = 0"
  by (cases "field_s srt") (auto simp: compareTodos_def sortValue_def Let_def split: if_splits)

section \<open>Claims about filtering\<close>

lemma lower_MILK: "toLowerCase ''MILK'' = ''milk''"
  by code_simp

lemma lower_Buy_Milk: "toLowerCase ''Buy Milk'' = ''buy milk''"
  by code_simp

text \<open>
  Claim C1. For every list of todos, search term and filter specification, the result of
  \<^verbatim>\<open>applyFiltersAndSort\<close> holds exactly the todos of the input that satisfy
  every predicate that is present (each as often as the input holds it), and a predicate
  that is absent does not constrain: with the empty filter specification and the empty
  search term the result has the same todos as the input. The substring test of the
  search compares lower-cased strings, as the source does.
\<close>

theorem filtered_iff_conjunction:
  "mset (applyFiltersAndSort ts searchTerm filters srt) =
     filter_mset (spec_satisfies searchTerm filters) (mset ts) \<and>
   (t \<in> set (applyFiltersAndSort ts searchTerm filters srt) \<longleftrightarrow>
      t \<in> set ts \<and> spec_satisfies searchTerm filters t) \<and>
   mset (applyFiltersAndSort ts [] noFilters srt) = mset ts"
proof -
  have m: "mset (applyFiltersAndSort ts s f srt) = filter_mset (spec_satisfies s f) (mset ts)"
    for s f
    by (simp add: applyFiltersAndSort_def mset_js_sort applyFilters_filter
        passesFilters_spec[abs_def])
  have "t \<in> set (applyFiltersAndSort ts searchTerm filters srt) \<longleftrightarrow>
      t \<in> set ts \<and> spec_satisfies searchTerm filters t"
    using arg_cong[OF m[of searchTerm filters], of set_mset] by simp
  moreover have "spec_satisfies [] noFilters = (\<lambda>u. True)"
    by (rule ext) (simp add: spec_satisfies_def noFilters_def)
  ultimately show ?thesis using m by simp
qed

theorem filtered_iff_conjunction_witness:
  "todo_milk \<in> set (applyFiltersAndSort [todo_report, todo_milk] ''MILK'' filters1
       \<lparr>field_s = F_title, order_s = Asc\<rparr>) \<and>
   todo_report \<notin> set (applyFiltersAndSort [todo_report, todo_milk] ''MILK'' filters1
       \<lparr>field_s = F_title, order_s = Asc\<rparr>) \<and>
   spec_satisfies ''MILK'' filters1 todo_milk \<and>
   \<not> spec_satisfies ''MILK'' filters1 todo_report"
proof -
  have a: "spec_satisfies ''MILK'' filters1 todo_milk"
    by (simp add: spec_satisfies_def filters1_def noFilters_def todo_milk_def lower_MILK
        lower_Buy_Milk includes_str_sublist[symmetric])
  have b: "\<not> spec_satisfies ''MILK'' filters1 todo_report"
    by (simp add: spec_satisfies_def filters1_def noFilters_def todo_report_def)
  have c: "todo_report \<noteq> todo_milk"
    by (simp add: todo_report_def todo_milk_def)
  show ?thesis
    using a b c
      filtered_iff_conjunction[of "[todo_report, todo_milk]" "''MILK''" filters1
        "\<lparr>field_s = F_title, order_s = Asc\<rparr>" todo_milk]
      filtered_iff_conjunction[of "[todo_report, todo_milk]" "''MILK''" filters1
        "\<lparr>field_s = F_title, order_s = Asc\<rparr>" todo_report]
    by simp
qed

text \<open>
  Claim C9. When the filter specification sets a due-date bound (\<^verbatim>\<open>dueDateFrom\<close>
  or \<^verbatim>\<open>dueDateTo\<close>), a todo without a due date is not in the result, whatever
  the other bound and the other filters are.
\<close>

theorem absent_dueDate_excluded:
  assumes "dueDateFrom filters \<noteq> None \<or> dueDateTo filters \<noteq> None"
    and "dueDate t = None"
  shows "t \<notin> set (applyFiltersAndSort ts searchTerm filters srt)"
proof -
  have "\<not> passesFilters searchTerm filters t"
    using assms by (simp add: passesFilters_def dueDateActive_def matchesDueDate_def)
  then show ?thesis
    by (simp add: applyFiltersAndSort_def set_js_sort applyFilters_filter)
qed

theorem absent_dueDate_excluded_witness:
  "dueDateTo filters2 = Some 1000 \<and>
   dueDate todo_report = None \<and>
   todo_report \<notin> set (applyFiltersAndSort [todo_milk, todo_report] [] filters2
       \<lparr>field_s = F_created_at, order_s = Desc\<rparr>)"
proof -
  have a: "dueDateFrom filters2 \<noteq> None \<or> dueDateTo filters2 \<noteq> None"
    by (simp add: filters2_def noFilters_def)
  have b: "dueDate todo_report = None"
    by (simp add: todo_report_def)
  have c: "dueDateTo filters2 = Some 1000"
    by (simp add: filters2_def noFilters_def)
  show ?thesis
    using b c absent_dueDate_excluded[OF a b] by simp
qed

section \<open>Claims about sorting\<close>

lemma sorted_split:
  fixes r :: "'a \<Rightarrow> int"
  shows "sorted_wrt (\<lambda>a b. r a \<le> r b) xs \<Longrightarrow>
         filter (\<lambda>t. r t < n) xs @ filter (\<lambda>t. \<not> r t < n) xs = xs"
proof (induction xs)
  case Nil
  show ?case by simp
next
  case (Cons x xs)
  show ?case
  proof (cases "r x < n")
    case True
    with Cons show ?thesis by simp
  next
    case False
    with Cons.prems have "\<forall>y\<in>set xs. \<not> r y < n" by auto
    then have "filter (\<lambda>t. r t < n) xs = []" and "filter (\<lambda>t. \<not> r t < n) xs = xs"
      by (simp_all add: filter_empty_conv filter_id_conv)
    with False show ?thesis by simp
  qed
qed

lemma compare_priority_asc:
  "field_s srt = F_priority \<Longrightarrow> order_s srt = Asc \<Longrightarrow>
   compareTodos srt a b \<le> 0 \<longleftrightarrow> priorityOrder (priority a) \<le> priorityOrder (priority b)"
  by (auto simp: compareTodos_def sortValue_def Let_def)

lemma priorityOrder_cases:
  "priorityOrder p < 2 \<longleftrightarrow> p = Low"
  "p \<noteq> Low \<and> priorityOrder p < 3 \<longleftrightarrow> p = Medium"
  "p \<noteq> Low \<and> \<not> priorityOrder p < 3 \<and> priorityOrder p < 4 \<longleftrightarrow> p = High"
  "p \<noteq> Low \<and> \<not> priorityOrder p < 3 \<and> \<not> priorityOrder p < 4 \<longleftrightarrow> p = Urgent"
  by (cases p; simp add: priorityOrder_def)+

lemma inj_priorityOrder: "inj priorityOrder"
  by (rule injI) (auto simp: priorityOrder_def split: TodoPriority.splits)

lemma sorted_by_rank_buckets:
  assumes "sorted_wrt (\<lambda>a b. priorityOrder (priority a) \<le> priorityOrder (priority b)) xs"
  shows "xs = concat (map (\<lambda>p. filter (\<lambda>t. priority t = p) xs) [Low, Medium, High, Urgent])"
proof -
  let ?r = "\<lambda>t. priorityOrder (priority t)"
  let ?S = "sorted_wrt (\<lambda>a b. ?r a \<le> ?r b)"
  have s2: "?S (filter (\<lambda>t. \<not> ?r t < 2) xs)"
    using assms by (rule sorted_wrt_filter)
  then have s3: "?S (filter (\<lambda>t. \<not> ?r t < 3) (filter (\<lambda>t. \<not> ?r t < 2) xs))"
    by (rule sorted_wrt_filter)
  have "xs = filter (\<lambda>t. ?r t < 2) xs @ filter (\<lambda>t. \<not> ?r t < 2) xs"
    using sorted_split[OF assms, of 2] by simp
  also have "filter (\<lambda>t. \<not> ?r t < 2) xs =
      filter (\<lambda>t. ?r t < 3) (filter (\<lambda>t. \<not> ?r t < 2) xs) @
      filter (\<lambda>t. \<not> ?r t < 3) (filter (\<lambda>t. \<not> ?r t < 2) xs)"
    using sorted_split[OF s2, of 3] by simp
  also have "filter (\<lambda>t. \<not> ?r t < 3) (filter (\<lambda>t. \<not> ?r t < 2) xs) =
      filter (\<lambda>t. ?r t < 4) (filter (\<lambda>t. \<not> ?r t < 3) (filter (\<lambda>t. \<not> ?r t < 2) xs)) @
      filter (\<lambda>t. \<not> ?r t < 4) (filter (\<lambda>t. \<not> ?r t < 3) (filter (\<lambda>t. \<not> ?r t < 2) xs))"
    using sorted_split[OF s3, of 4] by simp
  finally show ?thesis
    by (simp add: priorityOrder_cases)
qed

text \<open>
  Claim C2. Sorting by \<^verbatim>\<open>priority\<close> in ascending direction puts the filtered
  todos in the order low, medium, high, urgent: the result is the low todos, then the
  medium ones, then the high ones, then the urgent ones (each group in the order it has in
  the filtered list). The sequence of priorities of the result is therefore the same for
  every order of the input list.
\<close>

theorem priority_ascending_domain_order:
  assumes "field_s srt = F_priority" and "order_s srt = Asc"
  shows "applyFiltersAndSort ts searchTerm filters srt =
           concat (map (\<lambda>p. filter (\<lambda>t. priority t = p) (applyFilters ts searchTerm filters))
                       [Low, Medium, High, Urgent]) \<and>
         (\<forall>ts'. mset ts' = mset ts \<longrightarrow>
            map priority (applyFiltersAndSort ts' searchTerm filters srt) =
            map priority (applyFiltersAndSort ts searchTerm filters srt))"
proof -
  let ?le = "\<lambda>a b. priorityOrder (priority a) \<le> priorityOrder (priority b)"
  have le: "(\<lambda>a b. compareTodos srt a b \<le> 0) = ?le"
    by (intro ext) (rule compare_priority_asc[OF assms])
  have sorted: "sorted_wrt ?le (applyFiltersAndSort us searchTerm filters srt)" for us
    unfolding applyFiltersAndSort_def le[symmetric]
    by (rule sorted_js_sort) (rule compareTodos_total, rule compareTodos_trans)
  have stable: "filter (\<lambda>t. priority t = p) (applyFiltersAndSort ts searchTerm filters srt) =
                filter (\<lambda>t. priority t = p) (applyFilters ts searchTerm filters)" for p
    unfolding applyFiltersAndSort_def
    by (rule js_sort_stable) (simp add: compare_priority_asc[OF assms])
  have buckets: "applyFiltersAndSort ts searchTerm filters srt =
           concat (map (\<lambda>p. filter (\<lambda>t. priority t = p) (applyFilters ts searchTerm filters))
                       [Low, Medium, High, Urgent])"
    using sorted_by_rank_buckets[OF sorted[of ts]] by (simp add: stable)
  have perm: "map priority (applyFiltersAndSort ts' searchTerm filters srt) =
              map priority (applyFiltersAndSort ts searchTerm filters srt)"
    if "mset ts' = mset ts" for ts'
  proof -
    let ?o' = "applyFiltersAndSort ts' searchTerm filters srt"
    let ?o = "applyFiltersAndSort ts searchTerm filters srt"
    have "mset ?o' = mset ?o"
      using that by (simp add: applyFiltersAndSort_def mset_js_sort applyFilters_filter)
    then have m: "mset (map (\<lambda>t. priorityOrder (priority t)) ?o') =
                  mset (map (\<lambda>t. priorityOrder (priority t)) ?o)"
      by simp
    have "map (\<lambda>t. priorityOrder (priority t)) ?o' = map (\<lambda>t. priorityOrder (priority t)) ?o"
      by (rule sorted_wrt_mset_unique[where R = "(\<le>)"])
         (use m sorted in \<open>simp_all add: sorted_wrt_map\<close>)
    then have "map priorityOrder (map priority ?o') = map priorityOrder (map priority ?o)"
      by (simp add: comp_def)
    then show ?thesis
      using inj_priorityOrder by (simp only: inj_map_eq_map)
  qed
  show ?thesis using buckets perm by blast
qed

lemma applyFilters_noFilters: "applyFilters ts [] noFilters = ts"
  by (simp add: applyFilters_def searchActive_def trim_def statusActive_def priorityActive_def
      projectActive_def tagsActive_def dueDateActive_def noFilters_def)

theorem priority_ascending_domain_order_witness:
  "field_s byPriorityAsc = F_priority \<and> order_s byPriorityAsc = Asc \<and>
   applyFiltersAndSort [todo_milk, todo_report, todo_call] [] noFilters byPriorityAsc =
     [todo_report, todo_milk, todo_call] \<and>
   map priority (applyFiltersAndSort [todo_call, todo_milk, todo_report] [] noFilters byPriorityAsc) =
     [Low, High, High]"
proof -
  have f: "field_s byPriorityAsc = F_priority" and o: "order_s byPriorityAsc = Asc"
    by (simp_all add: byPriorityAsc_def)
  have p: "priority todo_milk = High" "priority todo_report = Low" "priority todo_call = High"
    by (simp_all add: todo_milk_def todo_report_def todo_call_def)
  have m: "mset [todo_call, todo_milk, todo_report] = mset [todo_milk, todo_report, todo_call]"
    by simp
  note w = priority_ascending_domain_order[OF f o, of "[todo_milk, todo_report, todo_call]" "[]" noFilters]
  from w have 1: "applyFiltersAndSort [todo_milk, todo_report, todo_call] [] noFilters byPriorityAsc =
     [todo_report, todo_milk, todo_call]"
    by (simp add: applyFilters_noFilters p)
  from w m have "map priority (applyFiltersAndSort [todo_call, todo_milk, todo_report] [] noFilters byPriorityAsc) =
     map priority (applyFiltersAndSort [todo_milk, todo_report, todo_call] [] noFilters byPriorityAsc)"
    by blast
  with 1 show ?thesis using f o p by simp
qed

text \<open>
  Claim C3 says that records that compare equal on the sort key are ordered by ascending
  \<^verbatim>\<open>id\<close>, so that the output does not depend on the order of the input. The
  comparator answers 0 for such a pair and the sort keeps the input order: two todos of
  priority high come out in either order, the one with the larger id first when the input
  has it first.
\<close>

theorem tie_break_counterexample:
  "mset [todo_milk, todo_call] = mset [todo_call, todo_milk] \<and>
   compareTodos byPriorityAsc todo_call todo_milk = 0 \<and>
   id_todo todo_milk < id_todo todo_call \<and>
   applyFiltersAndSort [todo_call, todo_milk] [] noFilters byPriorityAsc = [todo_call, todo_milk] \<and>
   applyFiltersAndSort [todo_milk, todo_call] [] noFilters byPriorityAsc = [todo_milk, todo_call] \<and>
   applyFiltersAndSort [todo_milk, todo_call] [] noFilters byPriorityAsc \<noteq>
   applyFiltersAndSort [todo_call, todo_milk] [] noFilters byPriorityAsc"
proof -
  have c: "compareTodos byPriorityAsc todo_call todo_milk = 0"
        "compareTodos byPriorityAsc todo_milk todo_call = 0"
    by (simp_all add: compareTodos_def sortValue_def byPriorityAsc_def todo_milk_def todo_call_def)
  have ne: "todo_milk \<noteq> todo_call"
    by (simp add: todo_milk_def todo_call_def)
  have i: "id_todo todo_milk < id_todo todo_call"
    by (simp add: todo_milk_def todo_call_def)
  show ?thesis
    using c ne i by (simp add: applyFiltersAndSort_def applyFilters_noFilters js_sort_def)
qed

lemma compareTodos_tie_class:
  assumes "compareTodos srt t x = 0" and "compareTodos srt t y = 0"
  shows "compareTodos srt x y \<le> 0"
proof -
  have "sortValue (field_s srt) x = sortValue (field_s srt) y"
    using assms by (simp add: compareTodos_zero_iff)
  then have "compareTodos srt x y = 0"
    by (simp only: compareTodos_zero_iff)
  then show ?thesis by simp
qed

text \<open>
  Claim C3, amended. The result is ordered by the comparator of the sort key alone, and the
  sort is stable: the todos that compare equal to a given one keep the order they have in
  the filtered input (no tie-break by \<^verbatim>\<open>id\<close>). When no two distinct todos
  of the input compare equal on the sort key, every input list with the same todos gives
  the same result.
\<close>

theorem sort_stable_deterministic_without_ties:
  "sorted_wrt (\<lambda>a b. compareTodos srt a b \<le> 0) (applyFiltersAndSort ts searchTerm filters srt) \<and>
   filter (\<lambda>u. compareTodos srt t u = 0) (applyFiltersAndSort ts searchTerm filters srt) =
     filter (\<lambda>u. compareTodos srt t u = 0) (applyFilters ts searchTerm filters) \<and>
   (mset ts' = mset ts \<and>
    (\<forall>a\<in>set ts. \<forall>b\<in>set ts. compareTodos srt a b = 0 \<longrightarrow> a = b) \<longrightarrow>
      applyFiltersAndSort ts' searchTerm filters srt = applyFiltersAndSort ts searchTerm filters srt)"
proof -
  let ?R = "\<lambda>a b. compareTodos srt a b \<le> 0"
  have sorted: "sorted_wrt ?R (applyFiltersAndSort us searchTerm filters srt)" for us
    unfolding applyFiltersAndSort_def
    by (rule sorted_js_sort) (rule compareTodos_total, rule compareTodos_trans)
  have stable: "filter (\<lambda>u. compareTodos srt t u = 0) (applyFiltersAndSort ts searchTerm filters srt) =
     filter (\<lambda>u. compareTodos srt t u = 0) (applyFilters ts searchTerm filters)"
    unfolding applyFiltersAndSort_def
    by (rule js_sort_stable) (rule compareTodos_tie_class)
  have det: "applyFiltersAndSort ts' searchTerm filters srt = applyFiltersAndSort ts searchTerm filters srt"
    if m: "mset ts' = mset ts"
      and ties: "\<forall>a\<in>set ts. \<forall>b\<in>set ts. compareTodos srt a b = 0 \<longrightarrow> a = b"
  proof (rule sorted_wrt_mset_unique[where R = ?R])
    show "sorted_wrt ?R (applyFiltersAndSort ts' searchTerm filters srt)" by (rule sorted)
    show "sorted_wrt ?R (applyFiltersAndSort ts searchTerm filters srt)" by (rule sorted)
    show "mset (applyFiltersAndSort ts' searchTerm filters srt) =
          mset (applyFiltersAndSort ts searchTerm filters srt)"
      using m by (simp add: applyFiltersAndSort_def mset_js_sort applyFilters_filter)
    fix x y
    assume "x \<in> set (applyFiltersAndSort ts' searchTerm filters srt)"
      and "y \<in> set (applyFiltersAndSort ts' searchTerm filters srt)"
      and xy: "compareTodos srt x y \<le> 0" and yx: "compareTodos srt y x \<le> 0"
    then have "x \<in> set ts'" and "y \<in> set ts'"
      by (simp_all add: applyFiltersAndSort_def set_js_sort applyFilters_filter)
    then have "x \<in> set ts" and "y \<in> set ts"
      using m by (metis mset_eq_setD)+
    moreover have "compareTodos srt x y = 0"
      using xy yx by (rule compareTodos_antisym)
    ultimately show "x = y" using ties by blast
  qed
  show ?thesis using sorted stable det by blast
qed

theorem sort_stable_deterministic_without_ties_witness:
  "mset [todo_report, todo_milk] = mset [todo_milk, todo_report] \<and>
   compareTodos byPriorityAsc todo_milk todo_report \<noteq> 0 \<and>
   applyFiltersAndSort [todo_report, todo_milk] [] noFilters byPriorityAsc =
     applyFiltersAndSort [todo_milk, todo_report] [] noFilters byPriorityAsc \<and>
   filter (\<lambda>u. compareTodos byPriorityAsc todo_milk u = 0)
     (applyFiltersAndSort [todo_milk, todo_report] [] noFilters byPriorityAsc) = [todo_milk]"
proof -
  have c: "compareTodos byPriorityAsc todo_milk todo_report = 1"
    "compareTodos byPriorityAsc todo_report todo_milk = - 1"
    "compareTodos byPriorityAsc todo_milk todo_milk = 0"
    "compareTodos byPriorityAsc todo_report todo_report = 0"
    by (simp_all add: compareTodos_def sortValue_def priorityOrder_def byPriorityAsc_def
        todo_milk_def todo_report_def)
  have m: "mset [todo_report, todo_milk] = mset [todo_milk, todo_report]"
    by simp
  have ties: "\<forall>a\<in>set [todo_milk, todo_report]. \<forall>b\<in>set [todo_milk, todo_report].
      compareTodos byPriorityAsc a b = 0 \<longrightarrow> a = b"
    using c by simp
  show ?thesis
    using c m ties
      sort_stable_deterministic_without_ties[of byPriorityAsc "[todo_milk, todo_report]" "[]"
        noFilters todo_milk "[todo_report, todo_milk]"]
    by (simp add: applyFilters_noFilters)
qed

section \<open>Claims about pagination\<close>

lemma paginatedTodos_take_drop:
  assumes "1 \<le> pageSize" and "1 \<le> p"
  shows "paginatedTodos xs pageSize p =
         take (nat pageSize) (drop (nat ((p - 1) * pageSize)) xs)"
proof -
  let ?s = "(p - 1) * pageSize"
  have s0: "0 \<le> ?s" using assms by simp
  show ?thesis
  proof (cases "?s < int (length xs)")
    case True
    then have "nat (min (?s + pageSize) (int (length xs)) - ?s) =
               min (nat pageSize) (length xs - nat ?s)"
      using s0 assms(1) by linarith
    moreover have "take (min (nat pageSize) (length xs - nat ?s)) (drop (nat ?s) xs) =
                   take (nat pageSize) (drop (nat ?s) xs)"
      by (simp add: min_def)
    ultimately show ?thesis
      using True s0 assms(1)
      by (simp add: paginatedTodos_def slice_def startIndex_def endIndex_def Let_def min_def)
  next
    case False
    then have "drop (nat ?s) xs = []" using s0 by simp
    then show ?thesis
      using False s0 assms(1)
      by (simp add: paginatedTodos_def slice_def startIndex_def endIndex_def Let_def min_def)
  qed
qed

lemma length_slice_le:
  assumes "stop = start + n" and "0 \<le> n"
  shows "length (slice xs start stop) \<le> nat n"
proof -
  define len where "len = int (length xs)"
  define k where "k = (if start < 0 then max (len + start) 0 else min start len)"
  define final where "final = (if stop < 0 then max (len + stop) 0 else min stop len)"
  have "0 \<le> len" by (simp add: len_def)
  then have "final - k \<le> n"
    using assms unfolding k_def final_def by (auto simp: min_def max_def)
  moreover have "length (slice xs start stop) \<le> nat (final - k)"
    by (simp add: slice_def Let_def k_def final_def len_def)
  ultimately show ?thesis by linarith
qed

lemma concat_chunks:
  "concat (map (\<lambda>i. take k (drop (i * k) xs)) [0..<n]) = take (n * k) xs"
proof (induction n)
  case 0
  show ?case by simp
next
  case (Suc n)
  have "take (n * k) xs @ take k (drop (n * k) xs) = take (n * k + k) xs"
    by (simp add: take_add)
  with Suc show ?case by (simp add: add.commute)
qed

lemma totalPages_covers:
  assumes "1 \<le> pageSize"
  shows "int (length xs) \<le> totalPages xs pageSize * pageSize"
proof -
  have "real (length xs) / real_of_int pageSize \<le> real_of_int (totalPages xs pageSize)"
    unfolding totalPages_def by (rule le_of_int_ceiling)
  then have "real (length xs) \<le> real_of_int (totalPages xs pageSize) * real_of_int pageSize"
    using assms by (simp add: pos_divide_le_eq)
  then have "real_of_int (int (length xs)) \<le> real_of_int (totalPages xs pageSize * pageSize)"
    by simp
  then show ?thesis by (simp only: of_int_le_iff)
qed

lemma totalPages_nonneg:
  assumes "1 \<le> pageSize"
  shows "0 \<le> totalPages xs pageSize"
proof -
  have "0 \<le> real (length xs) / real_of_int pageSize"
    using assms by simp
  then show ?thesis
    unfolding totalPages_def by simp
qed

text \<open>
  Claim C4. For a page size of at least 1, every page slice has at most that many items;
  the slices of the pages 1 up to \<^verbatim>\<open>totalPages\<close>, concatenated in that order, are
  the filtered list itself, and item \<open>i\<close> of page \<open>p\<close> is the item of the filtered
  list at position \<open>(p - 1) * pageSize + i\<close>, so the pages neither overlap nor leave a
  gap. A filtered list of 45 items with page size 20 has three pages, of 20, 20 and 5
  items. (\<^verbatim>\<open>currentPage\<close> counts from 1.)
\<close>

theorem pages_partition:
  assumes "1 \<le> pageSize"
  shows "(\<forall>p. length (paginatedTodos xs pageSize p) \<le> nat pageSize) \<and>
         concat (map (\<lambda>i. paginatedTodos xs pageSize (int i))
                     [1..<Suc (nat (totalPages xs pageSize))]) = xs \<and>
         (\<forall>p i. 1 \<le> p \<and> i < length (paginatedTodos xs pageSize p) \<longrightarrow>
            paginatedTodos xs pageSize p ! i = xs ! (nat ((p - 1) * pageSize) + i)) \<and>
         (length xs = 45 \<and> pageSize = 20 \<longrightarrow>
            totalPages xs pageSize = 3 \<and>
            map (\<lambda>i. length (paginatedTodos xs pageSize (int i))) [1, 2, 3] = [20, 20, 5])"
proof -
  let ?n = "nat (totalPages xs pageSize)"
  let ?k = "nat pageSize"
  have len: "length (paginatedTodos xs pageSize p) \<le> nat pageSize" for p
    unfolding paginatedTodos_def
    by (rule length_slice_le) (use assms in \<open>simp_all add: endIndex_def\<close>)
  have page: "paginatedTodos xs pageSize (1 + int j) = take ?k (drop (j * ?k) xs)" for j
  proof -
    have "nat ((1 + int j - 1) * pageSize) = j * ?k"
      using assms by (simp add: nat_mult_distrib)
    then show ?thesis
      using paginatedTodos_take_drop[OF assms, of "1 + int j" xs] by simp
  qed
  have "length xs \<le> ?n * ?k"
  proof -
    have "int (length xs) \<le> totalPages xs pageSize * pageSize"
      by (rule totalPages_covers[OF assms])
    also have "\<dots> = int (?n * ?k)"
      using assms totalPages_nonneg[OF assms, of xs] by simp
    finally show ?thesis by (simp only: of_nat_le_iff)
  qed
  then have cover: "take (?n * ?k) xs = xs" by simp
  have "[1..<Suc ?n] = map Suc [0..<?n]"
    by (simp add: map_Suc_upt)
  then have "concat (map (\<lambda>i. paginatedTodos xs pageSize (int i)) [1..<Suc ?n]) =
             concat (map (\<lambda>j. take ?k (drop (j * ?k) xs)) [0..<?n])"
    by (simp add: comp_def page del: upt_Suc)
  then have cat: "concat (map (\<lambda>i. paginatedTodos xs pageSize (int i)) [1..<Suc ?n]) = xs"
    by (simp only: concat_chunks cover)
  have nth: "paginatedTodos xs pageSize p ! i = xs ! (nat ((p - 1) * pageSize) + i)"
    if "1 \<le> p" and "i < length (paginatedTodos xs pageSize p)" for p i
  proof -
    have eq: "paginatedTodos xs pageSize p = take ?k (drop (nat ((p - 1) * pageSize)) xs)"
      by (rule paginatedTodos_take_drop[OF assms that(1)])
    with that(2) have "i < length xs - nat ((p - 1) * pageSize)" and "i < ?k"
      by simp_all
    then have "nat ((p - 1) * pageSize) \<le> length xs" and "i < ?k"
      by linarith+
    then show ?thesis
      unfolding eq by simp
  qed
  have ex: "totalPages xs pageSize = 3 \<and>
            map (\<lambda>i. length (paginatedTodos xs pageSize (int i))) [1, 2, 3] = [20, 20, 5]"
    if "length xs = 45" and "pageSize = 20"
  proof -
    have "totalPages xs pageSize = 3"
      using that by (simp add: totalPages_def)
    moreover have "length (paginatedTodos xs pageSize (1 + int j)) = min 20 (45 - j * 20)" for j
      unfolding page using that by simp
    from this[of 0] this[of 1] this[of 2]
    have "map (\<lambda>i. length (paginatedTodos xs pageSize (int i))) [1, 2, 3] = [20, 20, 5]"
      by simp
    ultimately show ?thesis by simp
  qed
  show ?thesis using len cat nth ex by blast
qed

theorem pages_partition_witness:
  "(1::int) \<le> 2 \<and>
   concat (map (\<lambda>i. paginatedTodos [todo_milk, todo_report, todo_call] 2 (int i))
               [1..<Suc (nat (totalPages [todo_milk, todo_report, todo_call] 2))]) =
     [todo_milk, todo_report, todo_call] \<and>
   paginatedTodos [todo_milk, todo_report, todo_call] 2 1 = [todo_milk, todo_report] \<and>
   paginatedTodos [todo_milk, todo_report, todo_call] 2 2 = [todo_call] \<and>
   length (replicate 45 todo_milk) = 45 \<and>
   totalPages (replicate 45 todo_milk) 20 = 3 \<and>
   map (\<lambda>i. length (paginatedTodos (replicate 45 todo_milk) 20 (int i))) [1, 2, 3] = [20, 20, 5]"
proof -
  have h: "(1::int) \<le> 2" "(1::int) \<le> 20" by simp_all
  have p: "paginatedTodos [todo_milk, todo_report, todo_call] 2 1 = [todo_milk, todo_report]"
    "paginatedTodos [todo_milk, todo_report, todo_call] 2 2 = [todo_call]"
    by (simp_all add: paginatedTodos_def slice_def startIndex_def endIndex_def)
  have l: "length (replicate 45 todo_milk) = 45" by simp
  show ?thesis
    using h p l pages_partition[OF h(1), of "[todo_milk, todo_report, todo_call]"]
      pages_partition[OF h(2), of "replicate 45 todo_milk"]
    by blast
qed

section \<open>Claims about the change handlers\<close>

text \<open>
  Claim C5 says that each handler, run a second time with the same argument, leaves the
  collection as the first run left it. \<^verbatim>\<open>handleTodoCreate\<close> puts the new todo
  in front of the list each time it runs, so a second run adds a second copy.
\<close>

theorem create_twice_counterexample:
  "todos (handleTodoCreate todo_call (handleTodoCreate todo_call state0)) =
     [todo_call, todo_call, todo_milk, todo_report] \<and>
   todos (handleTodoCreate todo_call state0) = [todo_call, todo_milk, todo_report] \<and>
   todos (handleTodoCreate todo_call (handleTodoCreate todo_call state0)) \<noteq>
   todos (handleTodoCreate todo_call state0)"
  by (simp add: handleTodoCreate_def state0_def)

text \<open>
  Claim C5, amended. \<^verbatim>\<open>handleTodoUpdate\<close> is idempotent, and so is
  \<^verbatim>\<open>handleTodoDelete\<close> when the remote store answers the second call as it
  answered the first; \<^verbatim>\<open>handleTodoCreate\<close> is not: run twice with the same
  todo it leaves two copies of it at the head of the list.
\<close>

theorem update_delete_idempotent_create_not:
  "handleTodoUpdate u (handleTodoUpdate u s) = handleTodoUpdate u s \<and>
   handleTodoDelete r i (handleTodoDelete r i s) = handleTodoDelete r i s \<and>
   todos (handleTodoCreate n (handleTodoCreate n s)) = n # n # todos s"
proof -
  have "map (\<lambda>t. if id_todo t = id_todo u then u else t)
          (map (\<lambda>t. if id_todo t = id_todo u then u else t) ts) =
        map (\<lambda>t. if id_todo t = id_todo u then u else t) ts" for ts
    by (induction ts) auto
  then have 1: "handleTodoUpdate u (handleTodoUpdate u s) = handleTodoUpdate u s"
    by (simp add: handleTodoUpdate_def)
  have 2: "handleTodoDelete r i (handleTodoDelete r i s) = handleTodoDelete r i s"
    by (cases r) (auto simp: handleTodoDelete_def delete_try_def split: option.splits)
  have 3: "todos (handleTodoCreate n (handleTodoCreate n s)) = n # n # todos s"
    by (simp add: handleTodoCreate_def)
  show ?thesis using 1 2 3 by blast
qed

text \<open>
  Claim C6 says that an update carrying an older \<^verbatim>\<open>updated_at\<close> stamp than the
  stored todo is dropped. \<^verbatim>\<open>handleTodoUpdate\<close> compares ids only: the stored
  todo stamped 10 is replaced by the update stamped 5.
\<close>

theorem stale_update_counterexample:
  "id_todo milk_stale = id_todo todo_milk \<and>
   updated_at milk_stale = Some 5 \<and> updated_at todo_milk = Some 10 \<and>
   todos state0 = [todo_milk, todo_report] \<and>
   todos (handleTodoUpdate milk_stale state0) = [milk_stale, todo_report] \<and>
   todos (handleTodoUpdate milk_stale state0) \<noteq> todos state0"
  by (simp add: handleTodoUpdate_def state0_def milk_stale_def todo_milk_def todo_report_def)

text \<open>
  Claim C6, amended. \<^verbatim>\<open>handleTodoUpdate\<close> replaces every stored todo that has
  the id of the update by the update, whatever the two \<^verbatim>\<open>updated_at\<close> stamps
  are; the todos with another id keep their place and their fields, and when no stored
  todo has that id the state is unchanged.
\<close>

theorem update_replaces_unconditionally:
  "length (todos (handleTodoUpdate u s)) = length (todos s) \<and>
   (\<forall>i < length (todos s).
      todos (handleTodoUpdate u s) ! i =
        (if id_todo (todos s ! i) = id_todo u then u else todos s ! i)) \<and>
   (id_todo u \<notin> id_todo ` set (todos s) \<longrightarrow> handleTodoUpdate u s = s)"
proof -
  have "map (\<lambda>t. if id_todo t = id_todo u then u else t) ts = ts"
    if "id_todo u \<notin> id_todo ` set ts" for ts
    using that by (induction ts) auto
  then show ?thesis
    by (simp add: handleTodoUpdate_def)
qed

theorem update_replaces_unconditionally_witness:
  "(0::nat) < length (todos state0) \<and>
   id_todo (todos state0 ! 0) = id_todo milk_stale \<and>
   updated_at milk_stale = Some 5 \<and> updated_at (todos state0 ! 0) = Some 10 \<and>
   todos (handleTodoUpdate milk_stale state0) ! 0 = milk_stale \<and>
   id_todo todo_call \<notin> id_todo ` set (todos state0) \<and>
   handleTodoUpdate todo_call state0 = state0"
proof -
  have a: "(0::nat) < length (todos state0)"
    by (simp add: state0_def)
  have b: "id_todo (todos state0 ! 0) = id_todo milk_stale"
    "updated_at milk_stale = Some 5" "updated_at (todos state0 ! 0) = Some 10"
    by (simp_all add: state0_def milk_stale_def todo_milk_def)
  have c: "id_todo todo_call \<notin> id_todo ` set (todos state0)"
    by (simp add: state0_def todo_call_def todo_milk_def todo_report_def)
  show ?thesis
    using a b c update_replaces_unconditionally[of milk_stale state0]
      update_replaces_unconditionally[of todo_call state0]
    by auto
qed

text \<open>
  Claim C7. When the remote store rejects a delete (the call resolves with an error, or
  throws), the state after \<^verbatim>\<open>handleTodoDelete\<close> is the state before with the
  error message set: the todos and the filtered todos are the same lists, so the todo is
  still there with its fields and every other todo is untouched.
\<close>

theorem rejected_delete_keeps_todos:
  "handleTodoDelete (Resolved (Some e)) i s =
     s\<lparr>error := Some (case e of ErrorInstance m \<Rightarrow> m | OtherValue \<Rightarrow> ''Failed to delete todo'')\<rparr> \<and>
   handleTodoDelete (Thrown e) i s =
     s\<lparr>error := Some (case e of ErrorInstance m \<Rightarrow> m | OtherValue \<Rightarrow> ''Failed to delete todo'')\<rparr> \<and>
   todos (handleTodoDelete (Resolved (Some e)) i s) = todos s \<and>
   todos (handleTodoDelete (Thrown e) i s) = todos s \<and>
   filteredTodos (handleTodoDelete (Resolved (Some e)) i s) = filteredTodos s \<and>
   error (handleTodoDelete (Resolved (Some e)) i s) \<noteq> None"
  by (simp add: handleTodoDelete_def delete_try_def)

section \<open>Claim about the status toggle\<close>

text \<open>
  Claim C10. The toggle is a two-valued switch: for a todo whose status is done it sets
  the status to todo and \<^verbatim>\<open>completedAt\<close> to null; for each of the other
  statuses (todo, in progress, cancelled) it sets the status to done and
  \<^verbatim>\<open>completedAt\<close> to the current time.
\<close>

theorem toggle_two_valued:
  "handleToggleStatus False now t =
     Some \<lparr>row_id = id_todo t,
           new_status = (case status t of StDone \<Rightarrow> StTodo | StTodo \<Rightarrow> StDone
                          | StInProgress \<Rightarrow> StDone | StCancelled \<Rightarrow> StDone),
           new_completedAt = (case status t of StDone \<Rightarrow> None | StTodo \<Rightarrow> Some now
                          | StInProgress \<Rightarrow> Some now | StCancelled \<Rightarrow> Some now)\<rparr>"
  by (cases "status t") (simp_all add: handleToggleStatus_def)

section \<open>Claim about the input array\<close>

lemma extends_new_array: "extends_heap h (new_array rs h)"
  by (simp add: extends_heap_def new_array_def)

lemma extends_filter_array:
  assumes "extends_heap h ah"
  shows "extends_heap h (filter_array P ah)"
proof -
  obtain a h' where ah: "ah = (a, h')" by (cases ah)
  with assms have "length (arrays h) \<le> length (arrays h')"
    by (simp add: extends_heap_def)
  with assms ah show ?thesis
    by (simp add: extends_heap_def filter_array_def new_array_def)
qed

lemma extends_guarded:
  assumes "extends_heap h ah"
  shows "extends_heap h (if c then filter_array P ah else ah)"
  using assms by (simp add: extends_filter_array)

lemma extends_sort_array:
  assumes "extends_heap h ah"
  shows "extends_heap h (sort_array cmp ah)"
proof -
  obtain a h' where ah: "ah = (a, h')" by (cases ah)
  with assms show ?thesis
    by (simp add: extends_heap_def sort_array_def)
qed

lemma extends_applyFilters_heap:
  "extends_heap h (applyFilters_heap todos_a searchTerm filters h)"
  unfolding applyFilters_heap_def Let_def
  by (intro extends_guarded extends_new_array)

lemma extends_applyFiltersAndSort_heap:
  "extends_heap h (applyFiltersAndSort_heap todos_a searchTerm filters srt h)"
  unfolding applyFiltersAndSort_heap_def
  by (intro extends_sort_array extends_applyFilters_heap)

lemma map_insert_by:
  "map f (insert_by (\<lambda>r r'. cmp (f r) (f r')) x ys) = insert_by cmp (f x) (map f ys)"
  by (induction ys) auto

lemma map_js_sort:
  "map f (js_sort (\<lambda>r r'. cmp (f r) (f r')) xs) = js_sort cmp (map f xs)"
  by (induction xs) (simp_all add: js_sort_Nil js_sort_Cons map_insert_by)

lemma view_new_array: "view (new_array rs h) = map (deref h) rs"
  by (simp add: view_def contents_def new_array_def deref_def)

lemma view_filter_array: "view (filter_array P ah) = filter P (view ah)"
  by (cases ah) (simp add: view_def contents_def filter_array_def new_array_def deref_def
      filter_map comp_def)

lemma view_guarded:
  "view (if c then filter_array P ah else ah) = (if c then filter P (view ah) else view ah)"
  by (simp add: view_filter_array)

lemma view_sort_array:
  assumes "fst ah < length (arrays (snd ah))"
  shows "view (sort_array cmp ah) = js_sort cmp (view ah)"
proof -
  obtain a h' where ah: "ah = (a, h')" by (cases ah)
  have d: "deref (h'\<lparr>arrays := xs\<rparr>) = deref h'" for xs
    by (rule ext) (simp add: deref_def)
  show ?thesis
    using assms ah
    by (simp add: view_def contents_def sort_array_def d map_js_sort)
qed

lemma view_applyFilters_heap:
  "view (applyFilters_heap todos_a searchTerm filters h) =
   applyFilters (contents h todos_a) searchTerm filters"
  unfolding applyFilters_heap_def applyFilters_def Let_def
  by (simp only: view_guarded view_new_array contents_def)

lemma view_applyFiltersAndSort_heap:
  "view (applyFiltersAndSort_heap todos_a searchTerm filters srt h) =
   applyFiltersAndSort (contents h todos_a) searchTerm filters srt"
proof -
  have "extends_heap h (applyFilters_heap todos_a searchTerm filters h)"
    by (rule extends_applyFilters_heap)
  then have "fst (applyFilters_heap todos_a searchTerm filters h)
             < length (arrays (snd (applyFilters_heap todos_a searchTerm filters h)))"
    by (simp add: extends_heap_def split: prod.splits)
  then show ?thesis
    unfolding applyFiltersAndSort_heap_def applyFiltersAndSort_def
    by (simp only: view_sort_array view_applyFilters_heap)
qed

text \<open>
  Claim C8. \<^verbatim>\<open>applyFiltersAndSort\<close> does not change its input: after the call
  the array \<^verbatim>\<open>todos\<close> holds the same references in the same order, no todo
  object has changed, and so the array holds the same todos as before. Every array that
  existed before the call is as it was; the array that is sorted in place is a new one,
  and it holds the filtered and sorted view.
\<close>

theorem applyFiltersAndSort_keeps_input:
  assumes "applyFiltersAndSort_heap todos_a searchTerm filters srt h = (filtered, h')"
    and "todos_a < length (arrays h)"
  shows "arrays h' ! todos_a = arrays h ! todos_a \<and>
         contents h' todos_a = contents h todos_a \<and>
         objects h' = objects h \<and>
         (\<forall>a < length (arrays h). arrays h' ! a = arrays h ! a) \<and>
         filtered \<noteq> todos_a \<and>
         contents h' filtered = applyFiltersAndSort (contents h todos_a) searchTerm filters srt"
proof -
  have "extends_heap h (filtered, h')"
    using extends_applyFiltersAndSort_heap[of h todos_a searchTerm filters srt] assms(1) by simp
  then have o: "objects h' = objects h"
    and t: "take (length (arrays h)) (arrays h') = arrays h"
    and f: "length (arrays h) \<le> filtered"
    by (simp_all add: extends_heap_def)
  have a: "arrays h' ! a = arrays h ! a" if "a < length (arrays h)" for a
  proof -
    have "take (length (arrays h)) (arrays h') ! a = arrays h' ! a"
      using that by simp
    then show ?thesis by (simp only: t)
  qed
  have c: "contents h' todos_a = contents h todos_a"
    using a[OF assms(2)] o by (simp add: contents_def deref_def[abs_def])
  have v: "contents h' filtered = applyFiltersAndSort (contents h todos_a) searchTerm filters srt"
    using view_applyFiltersAndSort_heap[of todos_a searchTerm filters srt h] assms(1)
    by (simp add: view_def)
  show ?thesis
    using a assms(2) c o f v by auto
qed

theorem applyFiltersAndSort_keeps_input_witness:
  "applyFiltersAndSort_heap 0 [] noFilters byPriorityAsc heap0 =
     (1, \<lparr>objects = [todo_milk, todo_report, todo_call], arrays = [[0, 1, 2], [1, 0, 2]]\<rparr>) \<and>
   (0::nat) < length (arrays heap0) \<and>
   contents \<lparr>objects = [todo_milk, todo_report, todo_call], arrays = [[0, 1, 2], [1, 0, 2]]\<rparr> 0 =
     contents heap0 0 \<and>
   contents heap0 0 = [todo_milk, todo_report, todo_call] \<and>
   contents \<lparr>objects = [todo_milk, todo_report, todo_call], arrays = [[0, 1, 2], [1, 0, 2]]\<rparr> 1 =
     [todo_report, todo_milk, todo_call]"
proof -
  have c: "compareTodos byPriorityAsc (deref heap0 0) (deref heap0 1) = 1"
    "compareTodos byPriorityAsc (deref heap0 1) (deref heap0 2) = - 1"
    "compareTodos byPriorityAsc (deref heap0 0) (deref heap0 2) = 0"
    by (simp_all add: compareTodos_def sortValue_def priorityOrder_def byPriorityAsc_def
        deref_def heap0_def todo_milk_def todo_report_def todo_call_def)
  have d: "deref (heap0\<lparr>arrays := xs\<rparr>) = deref heap0" for xs
    by (rule ext) (simp add: deref_def)
  have run: "applyFiltersAndSort_heap 0 [] noFilters byPriorityAsc heap0 =
     (1, \<lparr>objects = [todo_milk, todo_report, todo_call], arrays = [[0, 1, 2], [1, 0, 2]]\<rparr>)"
    using c
    by (simp add: applyFiltersAndSort_heap_def applyFilters_heap_def sort_array_def new_array_def
        searchActive_def trim_def statusActive_def priorityActive_def projectActive_def
        tagsActive_def dueDateActive_def noFilters_def js_sort_def d)
       (simp add: heap0_def)
  have valid: "(0::nat) < length (arrays heap0)"
    by (simp add: heap0_def)
  have before: "contents heap0 0 = [todo_milk, todo_report, todo_call]"
    by (simp add: contents_def deref_def heap0_def)
  have after: "contents \<lparr>objects = [todo_milk, todo_report, todo_call], arrays = [[0, 1, 2], [1, 0, 2]]\<rparr> 1 =
     [todo_report, todo_milk, todo_call]"
    by (simp add: contents_def deref_def)
  show ?thesis
    using run valid before after applyFiltersAndSort_keeps_input[OF run valid] by blast
qed

end
